theory Spec2Isabelle
  imports Main "HOL-Library.AList" "HOL-Library.Multiset"
begin

section \<open>Frequency-based range queries over a segment tree (solution.js)\<close>

text \<open>
  The development embeds \<open>solution.js\<close>: the segment tree of frequency tables
  (\<open>createNode\<close>, \<open>buildSegmentTree\<close>), the query walk (\<open>queryRange\<close>), the batch
  entry point \<open>frequencyBasedQueries\<close> and the direct-counting variant
  \<open>optimizedFrequencyBasedQueries\<close>. Array elements, indices, ranks and counts are
  JavaScript numbers holding integers and are modelled as \<open>int\<close>.
\<close>

subsection \<open>JavaScript values and plain objects used as frequency tables\<close>

text \<open>
  A read that finds nothing (\<open>a[i]\<close> outside the array, \<open>m[e]\<close> for a missing key)
  yields \<open>undefined\<close> in JavaScript and raises nothing.
\<close>

datatype jsval = Undefined | Num int

text \<open>
  A frequency table is a plain object \<open>{}\<close> whose keys are the decimal strings of
  integers. It is kept as an association list of its own properties in the order in
  which they were created; keys are the integers the strings denote.
\<close>

type_synonym freqMap = "(int \<times> int) list"

text \<open>Array read \<open>xs[i]\<close>.\<close>

definition at :: "int list \<Rightarrow> int \<Rightarrow> jsval" where
  "at xs i = (if 0 \<le> i \<and> i < int (length xs) then Num (xs ! nat i) else Undefined)"

text \<open>Property read \<open>m[v]\<close>; the key \<open>undefined\<close> is never a property of a table.\<close>

definition readProp :: "freqMap \<Rightarrow> jsval \<Rightarrow> jsval" where
  "readProp m v = (case v of Undefined \<Rightarrow> Undefined
               | Num e \<Rightarrow> (case map_of m e of None \<Rightarrow> Undefined | Some c \<Rightarrow> Num c))"

text \<open>
  \<open>m[e] || 0\<close>: a missing key reads as \<open>0\<close> (and so does a stored \<open>0\<close>). In the sort
  comparators the key is always one of the table's own keys, where this is \<open>m[e]\<close>.
\<close>

definition getOr0 :: "freqMap \<Rightarrow> int \<Rightarrow> int" where
  "getOr0 m e = (case map_of m e of None \<Rightarrow> 0 | Some c \<Rightarrow> c)"

text \<open>
  Own keys are enumerated by \<open>Object.entries\<close> and \<open>Object.keys\<close> with the array
  indices (integers from \<open>0\<close> to \<open>2^32 - 2\<close>) first, in ascending order, and then all
  other keys in creation order.
\<close>

definition isArrayIndex :: "int \<Rightarrow> bool" where
  "isArrayIndex k \<longleftrightarrow> 0 \<le> k \<and> k < 4294967295"

definition entries :: "freqMap \<Rightarrow> (int \<times> int) list" where
  "entries m = sort_key fst (filter (\<lambda>p. isArrayIndex (fst p)) m)
               @ filter (\<lambda>p. \<not> isArrayIndex (fst p)) m"

definition keys :: "freqMap \<Rightarrow> int list" where
  "keys m = map fst (entries m)"

text \<open>
  The loop \<open>for (const [element, frequency] of es) m[element] = (m[element] || 0) + frequency\<close>.
  \<open>AList.update\<close> overwrites an existing key in place and appends a new one.
\<close>

definition addEntries :: "(int \<times> int) list \<Rightarrow> freqMap \<Rightarrow> freqMap" where
  "addEntries es m = fold (\<lambda>(element, frequency) acc.
                       AList.update element (getOr0 acc element + frequency) acc) es m"

text \<open>
  The same loop guarded by \<open>if (element >= left && element <= right)\<close>. The key is
  a string and the bounds are numbers, so JavaScript compares the number the key denotes.
\<close>

definition addEntriesFiltered :: "int \<Rightarrow> int \<Rightarrow> (int \<times> int) list \<Rightarrow> freqMap \<Rightarrow> freqMap" where
  "addEntriesFiltered left right es m = fold (\<lambda>(element, frequency) acc.
       if element \<ge> left \<and> element \<le> right
       then AList.update element (getOr0 acc element + frequency) acc else acc) es m"

subsection \<open>Sorting by frequency\<close>

text \<open>
  \<open>Array.prototype.sort\<close> with a comparator: a stable sort, written as insertion sort.
  An element goes before the first element it does not compare greater than. The lists
  sorted here are the keys of a table, which are distinct, and the comparator below is
  \<open>0\<close> only on equal keys, so the sorted order does not depend on the sorting method.
\<close>

fun insertBy :: "('a \<Rightarrow> 'a \<Rightarrow> int) \<Rightarrow> 'a \<Rightarrow> 'a list \<Rightarrow> 'a list" where
  "insertBy cmp x [] = [x]"
| "insertBy cmp x (y # ys) = (if cmp x y \<le> 0 then x # y # ys else y # insertBy cmp x ys)"

definition sortBy :: "('a \<Rightarrow> 'a \<Rightarrow> int) \<Rightarrow> 'a list \<Rightarrow> 'a list" where
  "sortBy cmp xs = foldr (insertBy cmp) xs []"

text \<open>The comparator \<open>(a, b) => { freqDiff = m[b] - m[a]; return freqDiff !== 0 ? freqDiff : a - b }\<close>.\<close>

definition byFrequency :: "freqMap \<Rightarrow> int \<Rightarrow> int \<Rightarrow> int" where
  "byFrequency m a b = (let freqDiff = getOr0 m b - getOr0 m a
                        in if freqDiff \<noteq> 0 then freqDiff else a - b)"

text \<open>\<open>Object.keys(m).map(Number)\<close> followed by the sort.\<close>

definition sortedKeys :: "freqMap \<Rightarrow> int list" where
  "sortedKeys m = sortBy (byFrequency m) (keys m)"

subsection \<open>Tree nodes and construction\<close>

text \<open>
  \<open>createNode\<close> makes an object with both children \<open>null\<close>; \<open>buildSegmentTree\<close>
  either leaves both \<open>null\<close> (a leaf) or sets both. The two shapes are the two
  constructors.
\<close>

datatype node =
    Leaf (node_start: int) (node_end: int) (frequencyMap: freqMap) (frequencySorted: "int list")
  | Node (node_start: int) (node_end: int) (frequencyMap: freqMap) (frequencySorted: "int list")
         (node_left: node) (node_right: node)

text \<open>
  \<open>buildSegmentTree(arr, start, end)\<close>. The recursion of the source does not stop when
  \<open>end < start\<close>; not returning is the value \<open>None\<close>. A leaf whose index lies outside
  the array would be keyed by \<open>undefined\<close>, which is not an integer key; the model gives
  \<open>None\<close> there too. Neither happens for the call \<open>(arr, 0, arr.length - 1)\<close> made by
  \<open>frequencyBasedQueries\<close> (lemma \<open>buildSegmentTree_correct\<close> below).
\<close>

partial_function (option) buildSegmentTree :: "int list \<Rightarrow> int \<Rightarrow> int \<Rightarrow> node option" where
  "buildSegmentTree arr start end' =
     (if start = end' then
        (case at arr start of
           Undefined \<Rightarrow> None
         | Num v \<Rightarrow> Some (Leaf start end' (AList.update v 1 []) [v]))
      else
        (let mid = (start + end') div 2 in
         Option.bind (buildSegmentTree arr start mid) (\<lambda>l.
         Option.bind (buildSegmentTree arr (mid + 1) end') (\<lambda>r.
           (let mergedFrequencyMap =
                  addEntries (entries (frequencyMap r)) (addEntries (entries (frequencyMap l)) [])
            in Some (Node start end' mergedFrequencyMap (sortedKeys mergedFrequencyMap) l r))))))"

declare buildSegmentTree.simps [code]

subsection \<open>Queries\<close>

record result =
  element :: jsval
  frequency :: jsval

datatype error =
    EmptyInput                        \<comment> \<open>"Input array cannot be empty"\<close>
  | InvalidRange int int              \<comment> \<open>"Invalid range: [left, right]"\<close>
  | InvalidK int                      \<comment> \<open>"Invalid k value: k"\<close>
  | KExceedsDistinct int int int int  \<comment> \<open>"k (k) exceeds number of distinct elements (d) in range [left, right]"\<close>
  | TypeError                         \<comment> \<open>reading \<open>start\<close> of a \<open>null\<close> child\<close>

definition noSuchRank :: result where
  "noSuchRank = \<lparr>element = Num (- 1), frequency = Num 0\<rparr>"

text \<open>
  The common tail of both answering branches of \<open>queryRange\<close>:
  \<open>if (k > ranking.length) return {element: -1, frequency: 0};
    element = ranking[k - 1]; return {element, frequency: m[element]}\<close>, where
  \<open>ranking\<close> is the node's \<open>frequencySorted\<close> or the freshly sorted keys.
\<close>

definition pick :: "freqMap \<Rightarrow> int list \<Rightarrow> int \<Rightarrow> result" where
  "pick m ranking k =
     (if k > int (length ranking) then noSuchRank
      else (let el = at ranking (k - 1) in \<lparr>element = el, frequency = readProp m el\<rparr>))"

text \<open>
  \<open>queryRange(node, left, right, k)\<close>. \<open>rangeFrequencyMap\<close> is the table the
  partial-overlap branch fills (the first \<open>if (left <= mid)\<close> block, then the
  \<open>if (right > mid)\<close> block). On a leaf both children are \<open>null\<close>, and the recursive
  call on a child raises a \<open>TypeError\<close> at \<open>node.start\<close>.
\<close>

fun queryRange :: "node \<Rightarrow> int \<Rightarrow> int \<Rightarrow> int \<Rightarrow> error + result"
and rangeFrequencyMap :: "node \<Rightarrow> int \<Rightarrow> int \<Rightarrow> error + freqMap" where
  "queryRange nd left right k =
     (if node_start nd \<ge> left \<and> node_end nd \<le> right then
        Inr (pick (frequencyMap nd) (frequencySorted nd) k)
      else if node_end nd < left \<or> node_start nd > right then Inr noSuchRank
      else (case rangeFrequencyMap nd left right of
              Inl err \<Rightarrow> Inl err
            | Inr m \<Rightarrow> Inr (pick m (sortedKeys m) k)))"
| "rangeFrequencyMap (Leaf s e fm fs) left right =
     (let mid = (s + e) div 2 in
      if left \<le> mid then Inl TypeError
      else if right > mid then Inl TypeError
      else Inr [])"
| "rangeFrequencyMap (Node s e fm fs l r) left right =
     (let mid = (s + e) div 2 in
      case (if left \<le> mid then
              (case queryRange l left (min right mid) 1 of
                 Inl err \<Rightarrow> Inl err
               | Inr leftResult \<Rightarrow>
                   Inr (if element leftResult \<noteq> Num (- 1)
                        then addEntriesFiltered left right (entries (frequencyMap l)) []
                        else []))
            else Inr []) of
        Inl err \<Rightarrow> Inl err
      | Inr m1 \<Rightarrow>
          (if right > mid then
             (case queryRange r (max left (mid + 1)) right 1 of
                Inl err \<Rightarrow> Inl err
              | Inr rightResult \<Rightarrow>
                  Inr (if element rightResult \<noteq> Num (- 1)
                       then addEntriesFiltered left right (entries (frequencyMap r)) m1
                       else m1))
           else Inr m1))"

declare queryRange.simps [simp del]

text \<open>\<open>xs.slice(b, e)\<close>: negative bounds count from the end, both are clamped.\<close>

definition slice :: "'a list \<Rightarrow> int \<Rightarrow> int \<Rightarrow> 'a list" where
  "slice xs b e =
     (let n = int (length xs);
          from = (if b < 0 then max (n + b) 0 else min b n);
          to = (if e < 0 then max (n + e) 0 else min e n)
      in take (nat (to - from)) (drop (nat from) xs))"

type_synonym query = "int \<times> int \<times> int"

text \<open>
  The loop \<open>for (const [left, right, k] of queries)\<close> of \<open>frequencyBasedQueries\<close>,
  with \<open>results\<close> passed along. \<open>new Set(subarray).size\<close> is the number of distinct
  elements of the slice. A \<open>throw\<close> ends the loop and discards \<open>results\<close>.
\<close>

fun processQueries :: "int list \<Rightarrow> node \<Rightarrow> query list \<Rightarrow> jsval list \<Rightarrow> error + jsval list" where
  "processQueries arr root [] results = Inr results"
| "processQueries arr root ((left, right, k) # rest) results =
     (if left < 0 \<or> right \<ge> int (length arr) \<or> left > right then Inl (InvalidRange left right)
      else if k \<le> 0 then Inl (InvalidK k)
      else (let subarray = slice arr left (right + 1);
                distinctElements = int (length (remdups subarray))
            in if k > distinctElements then Inl (KExceedsDistinct k distinctElements left right)
               else (case queryRange root left right k of
                       Inl err \<Rightarrow> Inl err
                     | Inr res \<Rightarrow> processQueries arr root rest (results @ [element res]))))"

text \<open>
  \<open>frequencyBasedQueries(arr, queries)\<close>. The outer \<open>option\<close> is \<open>None\<close> when the tree
  construction does not return; \<open>Inl\<close> is a thrown error.
\<close>

definition frequencyBasedQueries :: "int list \<Rightarrow> query list \<Rightarrow> (error + jsval list) option" where
  "frequencyBasedQueries arr queries =
     (if arr = [] then Some (Inl EmptyInput)
      else (case buildSegmentTree arr 0 (int (length arr) - 1) of
              None \<Rightarrow> None
            | Some root \<Rightarrow> Some (processQueries arr root queries [])))"

subsection \<open>The direct-counting variant\<close>

text \<open>
  The counting loop \<open>for (let i = left; i <= right; i++) m[arr[i]] = (m[arr[i]] || 0) + 1\<close>.
  It runs after the range check, so every \<open>i\<close> is an index of the array; an index
  outside would add the key \<open>undefined\<close>, which the model leaves out.
\<close>

definition countRange :: "int list \<Rightarrow> int \<Rightarrow> int \<Rightarrow> freqMap" where
  "countRange arr left right = fold (\<lambda>i acc.
       (case at arr i of
          Undefined \<Rightarrow> acc
        | Num v \<Rightarrow> AList.update v (getOr0 acc v + 1) acc)) [left..right] []"

fun optimizedLoop :: "int list \<Rightarrow> query list \<Rightarrow> jsval list \<Rightarrow> error + jsval list" where
  "optimizedLoop arr [] results = Inr results"
| "optimizedLoop arr ((left, right, k) # rest) results =
     (if left < 0 \<or> right \<ge> int (length arr) \<or> left > right then Inl (InvalidRange left right)
      else if k \<le> 0 then Inl (InvalidK k)
      else (let fm = countRange arr left right;
                distinctElements = int (length (keys fm))
            in if k > distinctElements then Inl (KExceedsDistinct k distinctElements left right)
               else optimizedLoop arr rest (results @ [at (sortedKeys fm) (k - 1)])))"

definition optimizedFrequencyBasedQueries :: "int list \<Rightarrow> query list \<Rightarrow> error + jsval list" where
  "optimizedFrequencyBasedQueries arr queries =
     (if arr = [] then Inl EmptyInput else optimizedLoop arr queries [])"

subsection \<open>Notions used to state the properties\<close>

text \<open>All nodes of a tree, the root first.\<close>

fun subnodes :: "node \<Rightarrow> node list" where
  "subnodes (Leaf s e fm fs) = [Leaf s e fm fs]"
| "subnodes (Node s e fm fs l r) = Node s e fm fs l r # subnodes l @ subnodes r"

text \<open>
  The index ranges of a tree: a leaf covers one position, and the children of an inner
  node split its range at the midpoint.
\<close>

fun rangesSplit :: "node \<Rightarrow> bool" where
  "rangesSplit (Leaf s e fm fs) \<longleftrightarrow> s = e"
| "rangesSplit (Node s e fm fs l r) \<longleftrightarrow>
     s < e \<and> node_start l = s \<and> node_end l = (s + e) div 2 \<and>
     node_start r = (s + e) div 2 + 1 \<and> node_end r = e \<and> rangesSplit l \<and> rangesSplit r"

text \<open>
  \<open>a\<close> ranks before \<open>b\<close> among the elements \<open>xs\<close> of a range: it occurs more often,
  or equally often and is the smaller value.
\<close>

definition ranksBefore :: "int list \<Rightarrow> int \<Rightarrow> int \<Rightarrow> bool" where
  "ranksBefore xs a b \<longleftrightarrow>
     count_list xs a > count_list xs b \<or> (count_list xs a = count_list xs b \<and> a < b)"

text \<open>
  \<open>fm\<close> is the frequency table of the elements \<open>xs\<close>: its keys are the distinct values
  of \<open>xs\<close>, each stored once with its number of occurrences.
\<close>

definition tableOf :: "int list \<Rightarrow> freqMap \<Rightarrow> bool" where
  "tableOf xs fm \<longleftrightarrow>
     distinct (map fst fm) \<and> set (map fst fm) = set xs
     \<and> (\<forall>v \<in> set xs. map_of fm v = Some (int (count_list xs v)))"

text \<open>
  What a node says about the elements \<open>arr[start..end]\<close> of its range: the table has
  exactly the distinct values as keys, each with its number of occurrences, the counts
  add up to the size of the range, and the ranking lists exactly the distinct values,
  each one after exactly the values that rank before it.
\<close>

definition nodeInv :: "int list \<Rightarrow> node \<Rightarrow> bool" where
  "nodeInv arr nd \<longleftrightarrow>
     (let xs = slice arr (node_start nd) (node_end nd + 1);
          fm = frequencyMap nd;
          fs = frequencySorted nd
      in 0 \<le> node_start nd \<and> node_start nd \<le> node_end nd \<and> node_end nd < int (length arr)
         \<and> distinct (map fst fm) \<and> set (map fst fm) = set xs
         \<and> (\<forall>v \<in> set xs. map_of fm v = Some (int (count_list xs v)))
         \<and> sum_list (map snd fm) = node_end nd - node_start nd + 1
         \<and> distinct fs \<and> set fs = set xs
         \<and> sorted_wrt (ranksBefore xs) fs
         \<and> (\<forall>i \<in> {0..<length fs}.
               length (filter (\<lambda>v. ranksBefore xs v (fs ! i)) (remdups xs)) = i))"

text \<open>
  A valid query: the range lies inside the array and the rank is between \<open>1\<close> and the
  number of distinct elements of the range.
\<close>

definition validQuery :: "int list \<Rightarrow> query \<Rightarrow> bool" where
  "validQuery arr q \<longleftrightarrow>
     (case q of (left, right, k) \<Rightarrow>
        0 \<le> left \<and> left \<le> right \<and> right < int (length arr) \<and> 1 \<le> k
        \<and> k \<le> int (length (remdups (slice arr left (right + 1)))))"

section \<open>Properties of the tables and of the ranking\<close>

subsection \<open>Reading and merging tables\<close>

lemma getOr0_Nil [simp]: "getOr0 [] v = 0"
  by (simp add: getOr0_def)

lemma getOr0_Cons [simp]: "getOr0 ((k, c) # m) v = (if v = k then c else getOr0 m v)"
  by (simp add: getOr0_def)

lemma getOr0_update [simp]:
  "getOr0 (AList.update k c m) v = (if v = k then c else getOr0 m v)"
  by (simp add: getOr0_def update_conv')

lemma getOr0_absent: "v \<notin> fst ` set m \<Longrightarrow> getOr0 m v = 0"
  using map_of_eq_None_iff [of m v] by (simp add: getOr0_def)

lemma addEntries_Nil [simp]: "addEntries [] m = m"
  by (simp add: addEntries_def)

lemma addEntries_Cons [simp]:
  "addEntries ((k, c) # es) m = addEntries es (AList.update k (getOr0 m k + c) m)"
  by (simp add: addEntries_def)

lemma addEntries_keys: "fst ` set (addEntries es m) = fst ` set m \<union> fst ` set es"
proof (induction es arbitrary: m)
  case Nil
  show ?case by simp
next
  case (Cons p es)
  obtain k c where p: "p = (k, c)" by (cases p)
  show ?case
    unfolding p addEntries_Cons Cons.IH dom_update by auto
qed

lemma addEntries_distinct:
  "distinct (map fst m) \<Longrightarrow> distinct (map fst (addEntries es m))"
  by (induction es arbitrary: m) (auto simp: distinct_update)

lemma addEntries_getOr0:
  "distinct (map fst es) \<Longrightarrow> getOr0 (addEntries es m) v = getOr0 m v + getOr0 es v"
proof (induction es arbitrary: m)
  case Nil
  show ?case by simp
next
  case (Cons p es)
  obtain k c where p: "p = (k, c)" by (cases p)
  from Cons.prems p have fresh: "k \<notin> fst ` set es" and d: "distinct (map fst es)"
    by auto
  show ?case
    using Cons.IH [OF d] fresh by (simp add: p getOr0_absent)
qed

lemma mset_entries: "mset (entries m) = mset m"
  by (simp add: entries_def)

lemma set_entries [simp]: "set (entries m) = set m"
  using mset_entries [of m] by (metis set_mset_mset)

lemma distinct_keys_entries [simp]: "distinct (map fst (entries m)) = distinct (map fst m)"
proof -
  have "mset (map fst (entries m)) = mset (map fst m)"
    by (simp add: mset_entries)
  then show ?thesis by (rule mset_eq_imp_distinct_iff)
qed

lemma set_keys [simp]: "set (keys m) = fst ` set m"
  by (simp add: keys_def)

lemma distinct_keys [simp]: "distinct (keys m) = distinct (map fst m)"
  by (simp add: keys_def)

lemma getOr0_entries: "distinct (map fst m) \<Longrightarrow> getOr0 (entries m) v = getOr0 m v"
proof -
  assume d: "distinct (map fst m)"
  then have "map_of (entries m) = map_of m"
    by (simp add: map_of_inject_set)
  then show ?thesis by (simp add: getOr0_def)
qed

subsection \<open>The sort and the ranking it yields\<close>

lemma mset_insertBy [simp]: "mset (insertBy c x ys) = add_mset x (mset ys)"
  by (induction ys) auto

lemma mset_sortBy [simp]: "mset (sortBy c xs) = mset xs"
  by (induction xs) (auto simp: sortBy_def)

lemma set_insertBy [simp]: "set (insertBy c x ys) = insert x (set ys)"
  by (induction ys) auto

lemma sorted_insertBy:
  assumes total: "\<And>a b. \<not> c a b \<le> 0 \<Longrightarrow> c b a \<le> 0"
    and trans: "\<And>a b d. c a b \<le> 0 \<Longrightarrow> c b d \<le> 0 \<Longrightarrow> c a d \<le> 0"
  shows "sorted_wrt (\<lambda>a b. c a b \<le> 0) ys \<Longrightarrow> sorted_wrt (\<lambda>a b. c a b \<le> 0) (insertBy c x ys)"
proof (induction ys)
  case Nil
  show ?case by simp
next
  case (Cons y ys)
  show ?case
  proof (cases "c x y \<le> 0")
    case True
    with Cons.prems show ?thesis
      by (auto intro: trans)
  next
    case False
    then have "c y x \<le> 0" by (rule total)
    with False Cons show ?thesis by auto
  qed
qed

lemma sorted_sortBy:
  assumes total: "\<And>a b. \<not> c a b \<le> 0 \<Longrightarrow> c b a \<le> 0"
    and trans: "\<And>a b d. c a b \<le> 0 \<Longrightarrow> c b d \<le> 0 \<Longrightarrow> c a d \<le> 0"
  shows "sorted_wrt (\<lambda>a b. c a b \<le> 0) (sortBy c xs)"
proof (induction xs)
  case Nil
  show ?case by (simp add: sortBy_def)
next
  case (Cons x xs)
  have "sortBy c (x # xs) = insertBy c x (sortBy c xs)" by (simp add: sortBy_def)
  with Cons show ?case
    using sorted_insertBy [of c, OF total trans] by simp
qed

lemma byFrequency_le:
  "byFrequency m a b \<le> 0 \<longleftrightarrow> getOr0 m b < getOr0 m a \<or> (getOr0 m a = getOr0 m b \<and> a \<le> b)"
  by (auto simp: byFrequency_def Let_def)

lemma sorted_sortedKeys:
  "sorted_wrt (\<lambda>a b. byFrequency m a b \<le> 0) (sortedKeys m)"
  unfolding sortedKeys_def
  by (rule sorted_sortBy) (auto simp: byFrequency_le)

lemma set_sortedKeys [simp]: "set (sortedKeys m) = fst ` set m"
  using mset_sortBy [of "byFrequency m" "keys m"]
  by (metis sortedKeys_def set_keys set_mset_mset)

lemma distinct_sortedKeys [simp]: "distinct (sortedKeys m) = distinct (map fst m)"
  using mset_sortBy [of "byFrequency m" "keys m"]
  by (metis sortedKeys_def distinct_keys mset_eq_imp_distinct_iff)

lemma length_sortedKeys [simp]: "length (sortedKeys m) = length m"
  using mset_sortBy [of "byFrequency m" "keys m"] mset_entries [of m]
  by (metis sortedKeys_def keys_def length_map size_mset)

subsection \<open>Tables of a range\<close>

lemma tableOf_getOr0: "tableOf xs fm \<Longrightarrow> getOr0 fm v = int (count_list xs v)"
proof (cases "v \<in> set xs")
  case True
  assume "tableOf xs fm"
  with True show ?thesis by (simp add: tableOf_def getOr0_def)
next
  case False
  assume "tableOf xs fm"
  with False have "v \<notin> fst ` set fm" by (simp add: tableOf_def)
  then have "getOr0 fm v = 0" by (rule getOr0_absent)
  with False show ?thesis by simp
qed

lemma tableOfI:
  assumes "distinct (map fst fm)" and "fst ` set fm = set xs"
    and "\<And>v. getOr0 fm v = int (count_list xs v)"
  shows "tableOf xs fm"
proof -
  have "map_of fm v = Some (int (count_list xs v))" if "v \<in> set xs" for v
  proof -
    from that assms(2) have "v \<in> fst ` set fm" by simp
    then obtain c where c: "map_of fm v = Some c"
      by (metis map_of_eq_None_iff not_None_eq)
    with assms(3) [of v] show ?thesis by (simp add: getOr0_def)
  qed
  with assms(1,2) show ?thesis by (simp add: tableOf_def)
qed

lemma tableOf_leaf: "tableOf [v] [(v, 1)]"
  by (simp add: tableOf_def)

lemma tableOf_merge:
  assumes l: "tableOf xs fl" and r: "tableOf ys fr"
  shows "tableOf (xs @ ys) (addEntries (entries fr) (addEntries (entries fl) []))"
proof (rule tableOfI)
  show "distinct (map fst (addEntries (entries fr) (addEntries (entries fl) [])))"
    by (simp add: addEntries_distinct)
  show "fst ` set (addEntries (entries fr) (addEntries (entries fl) [])) = set (xs @ ys)"
    using l r by (auto simp: addEntries_keys tableOf_def)
  fix v
  from l r have dl: "distinct (map fst fl)" and dr: "distinct (map fst fr)"
    by (simp_all add: tableOf_def)
  show "getOr0 (addEntries (entries fr) (addEntries (entries fl) [])) v
        = int (count_list (xs @ ys) v)"
    using dl dr by (simp add: addEntries_getOr0 getOr0_entries tableOf_getOr0 [OF l] tableOf_getOr0 [OF r])
qed

lemma sum_list_snd_getOr0:
  "distinct (map fst fm) \<Longrightarrow> sum_list (map snd fm) = sum (getOr0 fm) (fst ` set fm)"
proof (induction fm)
  case Nil
  show ?case by simp
next
  case (Cons p fm)
  obtain k c where p: "p = (k, c)" by (cases p)
  from Cons.prems p have fresh: "k \<notin> fst ` set fm" and d: "distinct (map fst fm)"
    by auto
  have "sum (getOr0 (p # fm)) (fst ` set fm) = sum (getOr0 fm) (fst ` set fm)"
    using fresh by (intro sum.cong) (auto simp: p)
  with Cons.IH [OF d] fresh show ?case by (simp add: p)
qed

lemma tableOf_sum: "tableOf xs fm \<Longrightarrow> sum_list (map snd fm) = int (length xs)"
proof -
  assume t: "tableOf xs fm"
  then have d: "distinct (map fst fm)" and k: "fst ` set fm = set xs"
    by (simp_all add: tableOf_def)
  have "sum_list (map snd fm) = sum (getOr0 fm) (set xs)"
    using sum_list_snd_getOr0 [OF d] k by simp
  also have "\<dots> = (\<Sum>v\<in>set xs. int (count_list xs v))"
    by (simp add: tableOf_getOr0 [OF t])
  also have "\<dots> = int (sum (count_list xs) (set xs))" by simp
  also have "\<dots> = int (length xs)" by (simp add: sum_count_set)
  finally show ?thesis .
qed

lemma ranksBefore_irrefl: "\<not> ranksBefore xs a a"
  by (simp add: ranksBefore_def)

lemma ranksBefore_asym: "ranksBefore xs a b \<Longrightarrow> \<not> ranksBefore xs b a"
  by (auto simp: ranksBefore_def)

lemma tableOf_ranking:
  assumes t: "tableOf xs fm"
  shows "sorted_wrt (ranksBefore xs) (sortedKeys fm)"
proof -
  from t have d: "distinct (sortedKeys fm)" by (simp add: tableOf_def)
  have s: "sorted_wrt (\<lambda>a b. byFrequency fm a b \<le> 0) (sortedKeys fm)"
    by (rule sorted_sortedKeys)
  show ?thesis
    unfolding sorted_wrt_iff_nth_less
  proof (intro allI impI)
    fix i j
    assume ij: "i < j" and j: "j < length (sortedKeys fm)"
    with s have "byFrequency fm (sortedKeys fm ! i) (sortedKeys fm ! j) \<le> 0"
      by (simp add: sorted_wrt_iff_nth_less)
    moreover from d ij j have "sortedKeys fm ! i \<noteq> sortedKeys fm ! j"
      by (simp add: nth_eq_iff_index_eq)
    ultimately show "ranksBefore xs (sortedKeys fm ! i) (sortedKeys fm ! j)"
      by (auto simp: byFrequency_le tableOf_getOr0 [OF t] ranksBefore_def)
  qed
qed

lemma ranked_position:
  assumes d: "distinct fs" and s: "set fs = set xs"
    and sorted: "sorted_wrt (ranksBefore xs) fs" and i: "i < length fs"
  shows "length (filter (\<lambda>v. ranksBefore xs v (fs ! i)) (remdups xs)) = i"
proof -
  have "{v \<in> set fs. ranksBefore xs v (fs ! i)} = set (take i fs)"
  proof (intro set_eqI iffI)
    fix v
    assume "v \<in> {v \<in> set fs. ranksBefore xs v (fs ! i)}"
    then obtain j where j: "j < length fs" "v = fs ! j" and r: "ranksBefore xs (fs ! j) (fs ! i)"
      by (auto simp: in_set_conv_nth)
    have "j < i"
    proof (rule ccontr)
      assume "\<not> j < i"
      then consider "j = i" | "i < j" by linarith
      then show False
      proof cases
        case 1
        with r show False by (simp add: ranksBefore_irrefl)
      next
        case 2
        with sorted j have "ranksBefore xs (fs ! i) (fs ! j)"
          by (simp add: sorted_wrt_iff_nth_less)
        with r show False by (simp add: ranksBefore_asym)
      qed
    qed
    with j i show "v \<in> set (take i fs)"
      by (auto simp: in_set_conv_nth)
  next
    fix v
    assume "v \<in> set (take i fs)"
    then obtain j where j: "j < i" "v = fs ! j"
      using i by (auto simp: in_set_conv_nth)
    with sorted i have "ranksBefore xs (fs ! j) (fs ! i)"
      by (simp add: sorted_wrt_iff_nth_less)
    with j i show "v \<in> {v \<in> set fs. ranksBefore xs v (fs ! i)}" by simp
  qed
  moreover have "length (filter (\<lambda>v. ranksBefore xs v (fs ! i)) (remdups xs))
                 = card {v \<in> set xs. ranksBefore xs v (fs ! i)}"
    by (simp add: distinct_length_filter Collect_conj_eq Int_commute)
  moreover have "card (set (take i fs)) = i"
    using d i by (simp add: distinct_card)
  ultimately show ?thesis by (simp add: s)
qed

subsection \<open>Slices\<close>

lemma slice_in_range:
  "0 \<le> s \<Longrightarrow> s \<le> e \<Longrightarrow> e \<le> int (length xs)
   \<Longrightarrow> slice xs s e = take (nat (e - s)) (drop (nat s) xs)"
  by (simp add: slice_def Let_def min_def)

lemma slice_single:
  "0 \<le> s \<Longrightarrow> s < int (length xs) \<Longrightarrow> slice xs s (s + 1) = [xs ! nat s]"
proof -
  assume a: "0 \<le> s" "s < int (length xs)"
  then have "slice xs s (s + 1) = take 1 (drop (nat s) xs)"
    by (simp add: slice_in_range)
  also have "\<dots> = [xs ! nat s]"
    using a by (simp add: take_Suc_conv_app_nth)
  finally show ?thesis .
qed

lemma slice_split:
  assumes "0 \<le> s" "s \<le> m" "m < e" "e < int (length xs)"
  shows "slice xs s (e + 1) = slice xs s (m + 1) @ slice xs (m + 1) (e + 1)"
proof -
  define a where "a = nat s"
  define b where "b = nat (m + 1 - s)"
  define c where "c = nat (e - m)"
  have bc: "nat (e + 1 - s) = b + c" and ba: "nat (m + 1) = b + a"
    and c: "nat (e + 1 - (m + 1)) = c"
    using assms unfolding a_def b_def c_def by linarith+
  have "slice xs s (e + 1) = take (nat (e + 1 - s)) (drop (nat s) xs)"
    using assms by (intro slice_in_range) linarith+
  then have 1: "slice xs s (e + 1) = take (b + c) (drop a xs)"
    by (simp only: bc a_def)
  have "slice xs s (m + 1) = take (nat (m + 1 - s)) (drop (nat s) xs)"
    using assms by (intro slice_in_range) linarith+
  then have 2: "slice xs s (m + 1) = take b (drop a xs)"
    by (simp only: b_def a_def)
  have "slice xs (m + 1) (e + 1) = take (nat (e + 1 - (m + 1))) (drop (nat (m + 1)) xs)"
    using assms by (intro slice_in_range) linarith+
  then have 3: "slice xs (m + 1) (e + 1) = take c (drop (b + a) xs)"
    by (simp only: c ba)
  show ?thesis
    unfolding 1 2 3 by (simp add: take_add)
qed

lemma slice_whole: "slice xs 0 (int (length xs) - 1 + 1) = xs"
  by (simp add: slice_def)

section \<open>Construction\<close>

lemma length_slice_in_range:
  "0 \<le> s \<Longrightarrow> s \<le> e \<Longrightarrow> e < int (length xs) \<Longrightarrow> int (length (slice xs s (e + 1))) = e - s + 1"
  by (simp add: slice_in_range)

lemma nodeInvI:
  assumes range: "0 \<le> node_start nd" "node_start nd \<le> node_end nd" "node_end nd < int (length arr)"
    and table: "tableOf (slice arr (node_start nd) (node_end nd + 1)) (frequencyMap nd)"
    and d: "distinct (frequencySorted nd)"
    and s: "set (frequencySorted nd) = set (slice arr (node_start nd) (node_end nd + 1))"
    and sorted: "sorted_wrt (ranksBefore (slice arr (node_start nd) (node_end nd + 1))) (frequencySorted nd)"
  shows "nodeInv arr nd"
proof -
  let ?xs = "slice arr (node_start nd) (node_end nd + 1)"
  have "sum_list (map snd (frequencyMap nd)) = node_end nd - node_start nd + 1"
    using tableOf_sum [OF table] length_slice_in_range [OF range] by simp
  moreover have "\<forall>i \<in> {0..<length (frequencySorted nd)}.
      length (filter (\<lambda>v. ranksBefore ?xs v (frequencySorted nd ! i)) (remdups ?xs)) = i"
    using ranked_position [OF d s sorted] by simp
  ultimately show ?thesis
    using range table d s sorted
    by (simp add: nodeInv_def tableOf_def Let_def del: map_of_eq_Some_iff)
qed

lemma buildSegmentTree_correct:
  "0 \<le> s \<Longrightarrow> s \<le> e \<Longrightarrow> e < int (length arr) \<Longrightarrow>
   \<exists>t. buildSegmentTree arr s e = Some t \<and> node_start t = s \<and> node_end t = e \<and> rangesSplit t
       \<and> tableOf (slice arr s (e + 1)) (frequencyMap t)
       \<and> (\<forall>n \<in> set (subnodes t). nodeInv arr n)"
proof (induction "nat (e - s)" arbitrary: s e rule: less_induct)
  case less
  show ?case
  proof (cases "s = e")
    case True
    define v where "v = arr ! nat s"
    let ?t = "Leaf s e (AList.update v 1 []) [v]"
    have b: "buildSegmentTree arr s e = Some ?t"
      using less.prems True by (subst buildSegmentTree.simps) (simp add: at_def v_def)
    have sl: "slice arr s (e + 1) = [v]"
      using less.prems True by (simp add: slice_single v_def)
    have t: "tableOf (slice arr s (e + 1)) (frequencyMap ?t)"
      by (simp add: sl tableOf_leaf)
    have "nodeInv arr ?t"
      using less.prems t by (intro nodeInvI) (simp_all add: sl)
    with b t True show ?thesis by simp
  next
    case False
    define mid where "mid = (s + e) div 2"
    from False less.prems have m: "s \<le> mid" "mid < e" "mid + 1 \<le> e"
      unfolding mid_def by linarith+
    from m less.prems have "nat (mid - s) < nat (e - s)" "0 \<le> s" "s \<le> mid" "mid < int (length arr)"
      by linarith+
    from less.hyps [OF this] obtain l where l: "buildSegmentTree arr s mid = Some l"
      "node_start l = s" "node_end l = mid" "rangesSplit l"
      "tableOf (slice arr s (mid + 1)) (frequencyMap l)" "\<forall>n \<in> set (subnodes l). nodeInv arr n"
      by blast
    from m less.prems have "nat (e - (mid + 1)) < nat (e - s)" "0 \<le> mid + 1" "mid + 1 \<le> e"
      "e < int (length arr)"
      by linarith+
    from less.hyps [OF this] obtain r where r: "buildSegmentTree arr (mid + 1) e = Some r"
      "node_start r = mid + 1" "node_end r = e" "rangesSplit r"
      "tableOf (slice arr (mid + 1) (e + 1)) (frequencyMap r)" "\<forall>n \<in> set (subnodes r). nodeInv arr n"
      by blast
    define fm where "fm = addEntries (entries (frequencyMap r)) (addEntries (entries (frequencyMap l)) [])"
    let ?t = "Node s e fm (sortedKeys fm) l r"
    have b: "buildSegmentTree arr s e = Some ?t"
      using False l(1) r(1)
      by (subst buildSegmentTree.simps) (simp add: mid_def [symmetric] fm_def Let_def)
    have sl: "slice arr s (e + 1) = slice arr s (mid + 1) @ slice arr (mid + 1) (e + 1)"
      using less.prems m by (intro slice_split) linarith+
    have t: "tableOf (slice arr s (e + 1)) fm"
      unfolding sl fm_def using l(5) r(5) by (rule tableOf_merge)
    have inv: "nodeInv arr ?t"
    proof (rule nodeInvI)
      show "tableOf (slice arr (node_start ?t) (node_end ?t + 1)) (frequencyMap ?t)"
        using t by simp
      show "distinct (frequencySorted ?t)"
        using t by (simp add: tableOf_def)
      show "set (frequencySorted ?t) = set (slice arr (node_start ?t) (node_end ?t + 1))"
        using t by (simp add: tableOf_def)
      show "sorted_wrt (ranksBefore (slice arr (node_start ?t) (node_end ?t + 1))) (frequencySorted ?t)"
        using tableOf_ranking [OF t] by simp
    qed (use less.prems in simp_all)
    have "rangesSplit ?t"
      using l r m False less.prems by (simp add: mid_def)
    with b t inv l(6) r(6) show ?thesis by auto
  qed
qed

lemma buildSegmentTree_root:
  assumes "arr \<noteq> []"
  obtains root where "buildSegmentTree arr 0 (int (length arr) - 1) = Some root"
    and "node_start root = 0" and "node_end root = int (length arr) - 1"
    and "rangesSplit root" and "\<forall>nd \<in> set (subnodes root). nodeInv arr nd"
proof -
  from assms have "(0::int) \<le> 0" "0 \<le> int (length arr) - 1" "int (length arr) - 1 < int (length arr)"
    by (simp_all add: Suc_leI)
  from buildSegmentTree_correct [OF this] that show ?thesis by blast
qed

lemma root_in_subnodes: "nd \<in> set (subnodes nd)"
  by (cases nd) simp_all

section \<open>Queries on a built tree\<close>

lemma rangesSplit_query_total:
  "rangesSplit nd \<Longrightarrow> \<exists>res. queryRange nd left right k = Inr res"
proof (induction nd arbitrary: left right k)
  case (Leaf s e fm fs)
  then show ?case by (subst queryRange.simps) auto
next
  case (Node s e fm fs l r)
  define mid where "mid = (s + e) div 2"
  from Node.prems have sl: "rangesSplit l" and sr: "rangesSplit r" by simp_all
  obtain lres where lres: "queryRange l left (min right mid) 1 = Inr lres"
    using Node.IH(1) [OF sl] by blast
  obtain rres where rres: "queryRange r (max left (mid + 1)) right 1 = Inr rres"
    using Node.IH(2) [OF sr] by blast
  have "\<exists>m. rangeFrequencyMap (Node s e fm fs l r) left right = Inr m"
    unfolding rangeFrequencyMap.simps Let_def mid_def [symmetric] lres rres by simp
  then show ?case
    by (subst queryRange.simps) (auto simp del: rangeFrequencyMap.simps)
qed

lemma processQueries_error_kind:
  "rangesSplit root \<Longrightarrow> processQueries arr root qs rs \<noteq> Inl EmptyInput"
proof (induction qs arbitrary: rs)
  case Nil
  show ?case by simp
next
  case (Cons q qs)
  obtain left right k where q: "q = (left, right, k)" by (cases q)
  obtain res where res: "queryRange root left right k = Inr res"
    using rangesSplit_query_total [OF Cons.prems] by blast
  show ?case
    using Cons.IH [OF Cons.prems] by (simp add: q res Let_def)
qed

lemma processQueries_valid_prefix:
  "rangesSplit root \<Longrightarrow> \<forall>q \<in> set pre. validQuery arr q \<Longrightarrow>
   \<exists>rs'. processQueries arr root (pre @ rest) rs = processQueries arr root rest rs'"
proof (induction pre arbitrary: rs)
  case Nil
  show ?case by auto
next
  case (Cons q pre)
  obtain left right k where q: "q = (left, right, k)" by (cases q)
  obtain res where res: "queryRange root left right k = Inr res"
    using rangesSplit_query_total [OF Cons.prems(1)] by blast
  from Cons.prems(2) have v: "validQuery arr (left, right, k)" and rest: "\<forall>q \<in> set pre. validQuery arr q"
    by (simp_all add: q)
  from v have "processQueries arr root ((q # pre) @ rest) rs
               = processQueries arr root (pre @ rest) (rs @ [element res])"
    by (simp add: q res validQuery_def Let_def)
  with Cons.IH [OF Cons.prems(1) rest] show ?case by metis
qed

section \<open>The claims\<close>

text \<open>
  Claim C1 states that for every non-empty array and every list of valid queries the
  segment-tree implementation \<open>frequencyBasedQueries\<close> returns the same results as the
  direct-counting implementation \<open>optimizedFrequencyBasedQueries\<close>. On the array
  \<open>[1,2,3,2,1,3,1,4,2]\<close> the query \<open>(2, 5, 2)\<close> is valid, the segment tree answers
  \<open>3\<close> and direct counting answers \<open>1\<close>.
\<close>

theorem segment_tree_differs_from_direct_counting:
  "validQuery [1, 2, 3, 2, 1, 3, 1, 4, 2] (2, 5, 2)
   \<and> frequencyBasedQueries [1, 2, 3, 2, 1, 3, 1, 4, 2] [(2, 5, 2)] = Some (Inr [Num 3])
   \<and> optimizedFrequencyBasedQueries [1, 2, 3, 2, 1, 3, 1, 4, 2] [(2, 5, 2)] = Inr [Num 1]"
  by code_simp

text \<open>
  Claim C2 states that in the partial-overlap case each overlapping child contributes
  the occurrence counts of the positions inside the intersection of its range with the
  query range, membership being decided by index. For the query range \<open>[2, 5]\<close> at the
  root of the tree over \<open>[1,2,3,2,1,3,1,4,2]\<close> the merged table is \<open>{2: 2, 3: 1}\<close>:
  the left child, covering \<open>[0, 4]\<close>, contributes the entries of its whole table whose
  key lies between \<open>2\<close> and \<open>5\<close>, whereas the positions \<open>2..4\<close> hold \<open>3, 2, 1\<close> once
  each, and the counts of the positions \<open>2..5\<close> are \<open>{3: 2, 2: 1, 1: 1}\<close>.
\<close>

theorem partial_overlap_filters_by_value:
  "map_option (\<lambda>root. rangeFrequencyMap root 2 5) (buildSegmentTree [1, 2, 3, 2, 1, 3, 1, 4, 2] 0 8)
     = Some (Inr [(2, 2), (3, 1)])
   \<and> map_option (\<lambda>root. (node_start (node_left root), node_end (node_left root),
                          addEntriesFiltered 2 5 (entries (frequencyMap (node_left root))) []))
        (buildSegmentTree [1, 2, 3, 2, 1, 3, 1, 4, 2] 0 8) = Some (0, 4, [(2, 2), (3, 1)])
   \<and> countRange [1, 2, 3, 2, 1, 3, 1, 4, 2] 2 4 = [(3, 1), (2, 1), (1, 1)]
   \<and> countRange [1, 2, 3, 2, 1, 3, 1, 4, 2] 2 5 = [(3, 2), (2, 1), (1, 1)]"
  by code_simp

text \<open>
  Claim C3 states that a valid query is answered with an element that occurs in the
  queried range, never with the sentinel \<open>-1\<close>. On the array \<open>[5, 6]\<close> the query
  \<open>(0, 0, 1)\<close> is valid, the range holds only \<open>5\<close>, and the answer is \<open>-1\<close>.
\<close>

theorem valid_query_answered_with_sentinel:
  "validQuery [5, 6] (0, 0, 1) \<and> slice [5, 6 :: int] 0 (0 + 1) = [5]
   \<and> frequencyBasedQueries [5, 6] [(0, 0, 1)] = Some (Inr [Num (- 1)])"
  by code_simp

text \<open>
  Claim C4 states that on \<open>[1,2,3,2,1,3,1,4,2]\<close> the query \<open>(0, 8, 1)\<close> returns \<open>1\<close>
  and the query \<open>(2, 5, 2)\<close> returns \<open>1\<close>. The first does; the second returns \<open>3\<close>.
\<close>

theorem documented_example_results:
  "frequencyBasedQueries [1, 2, 3, 2, 1, 3, 1, 4, 2] [(0, 8, 1)] = Some (Inr [Num 1])
   \<and> frequencyBasedQueries [1, 2, 3, 2, 1, 3, 1, 4, 2] [(2, 5, 2)] = Some (Inr [Num 3])"
  by code_simp

text \<open>
  Claim C5 states that for a non-empty array the query operation, asked for the full
  range \<open>(0, n - 1)\<close> and a rank \<open>k\<close> above the number of distinct elements of the
  array, returns the sentinel and raises nothing: the tree is built and \<open>queryRange\<close>
  at its root returns \<open>{element: -1, frequency: 0}\<close>.
\<close>

theorem full_range_rank_beyond_distinct:
  assumes "arr \<noteq> []" and "k > int (length (remdups arr))"
  shows "\<exists>root. buildSegmentTree arr 0 (int (length arr) - 1) = Some root
        \<and> queryRange root 0 (int (length arr) - 1) k = Inr noSuchRank"
proof -
  from assms(1) obtain root where root: "buildSegmentTree arr 0 (int (length arr) - 1) = Some root"
    "node_start root = 0" "node_end root = int (length arr) - 1"
    "\<forall>nd \<in> set (subnodes root). nodeInv arr nd"
    by (rule buildSegmentTree_root)
  from root(4) have "nodeInv arr root" by (simp add: root_in_subnodes)
  then have "distinct (frequencySorted root)" "set (frequencySorted root) = set arr"
    using slice_whole [of arr] by (simp_all add: nodeInv_def Let_def root(2,3))
  then have "length (frequencySorted root) = length (remdups arr)"
    by (metis distinct_card length_remdups_card_conv)
  with assms(2) have "queryRange root 0 (int (length arr) - 1) k = Inr noSuchRank"
    by (subst queryRange.simps) (simp add: root(2,3) pick_def)
  with root(1) show ?thesis by blast
qed

theorem full_range_rank_beyond_distinct_witness:
  "[42, 42, 42, 42, 42 :: int] \<noteq> [] \<and> (2::int) > int (length (remdups [42, 42, 42, 42, 42 :: int]))
   \<and> (\<exists>root. buildSegmentTree [42, 42, 42, 42, 42] 0 (int (length [42, 42, 42, 42, 42 :: int]) - 1) = Some root
        \<and> queryRange root 0 (int (length [42, 42, 42, 42, 42 :: int]) - 1) 2 = Inr noSuchRank)"
  using full_range_rank_beyond_distinct [of "[42, 42, 42, 42, 42]" 2] by simp

text \<open>
  Claim C6 states that for every array \<open>frequencyBasedQueries\<close> raises the error of the
  first invalid query: a range error, a rank error or a distinct-count error. For the
  empty array this fails: the query \<open>(0, 0, 1)\<close> has \<open>right >= arr.length\<close>, and the
  error raised is the empty-input error.
\<close>

theorem empty_array_hides_range_error:
  "frequencyBasedQueries [] [(0, 0, 1)] = Some (Inl EmptyInput)
   \<and> frequencyBasedQueries [] [(0, 0, 1)] \<noteq> Some (Inl (InvalidRange 0 0))
   \<and> (0::int) \<ge> int (length ([]::int list))"
  by code_simp

text \<open>
  Claim C6 as amended: for every non-empty array, if all queries before the first
  invalid one are valid, the result is the error of that query and no list of results:
  a range error when \<open>left < 0\<close>, \<open>right >= arr.length\<close> or \<open>left > right\<close>; otherwise a
  rank error when \<open>k <= 0\<close>; otherwise a distinct-count error, carrying the number of
  distinct elements of \<open>arr[left..right]\<close>. The queries after it play no part.
\<close>

theorem first_invalid_query_error:
  assumes "arr \<noteq> []" and "\<forall>q \<in> set pre. validQuery arr q" and "\<not> validQuery arr (left, right, k)"
  shows "frequencyBasedQueries arr (pre @ (left, right, k) # post) =
           Some (Inl (if left < 0 \<or> right \<ge> int (length arr) \<or> left > right
                      then InvalidRange left right
                      else if k \<le> 0 then InvalidK k
                      else KExceedsDistinct k (int (length (remdups (slice arr left (right + 1)))))
                             left right))"
proof -
  from assms(1) obtain root where root: "buildSegmentTree arr 0 (int (length arr) - 1) = Some root"
    and split: "rangesSplit root"
    by (rule buildSegmentTree_root)
  obtain rs where "processQueries arr root (pre @ (left, right, k) # post) []
                   = processQueries arr root ((left, right, k) # post) rs"
    using processQueries_valid_prefix [OF split assms(2)] by blast
  moreover have "processQueries arr root ((left, right, k) # post) rs =
      Inl (if left < 0 \<or> right \<ge> int (length arr) \<or> left > right
           then InvalidRange left right
           else if k \<le> 0 then InvalidK k
           else KExceedsDistinct k (int (length (remdups (slice arr left (right + 1))))) left right)"
    using assms(3) by (auto simp: validQuery_def Let_def)
  ultimately show ?thesis
    using assms(1) root by (simp add: frequencyBasedQueries_def)
qed

theorem first_invalid_query_error_witness:
  "[1, 2, 3, 4, 5 :: int] \<noteq> [] \<and> validQuery [1, 2, 3, 4, 5] (0, 4, 1)
   \<and> \<not> validQuery [1, 2, 3, 4, 5] (2, 10, 1)
   \<and> frequencyBasedQueries [1, 2, 3, 4, 5] ([(0, 4, 1)] @ (2, 10, 1) # [(0, 4, 2)])
       = Some (Inl (InvalidRange 2 10))"
proof -
  have h1: "[1, 2, 3, 4, 5 :: int] \<noteq> []" by simp
  have v: "validQuery [1, 2, 3, 4, 5] (0, 4, 1)" by code_simp
  then have h2: "\<forall>q \<in> set [(0, 4, 1)]. validQuery [1, 2, 3, 4, 5] q" by simp
  have h3: "\<not> validQuery [1, 2, 3, 4, 5] (2, 10, 1)" by code_simp
  show ?thesis
    using first_invalid_query_error [OF h1 h2 h3, of "[(0, 4, 2)]"] h1 v h3 by simp
qed

text \<open>
  Claim C7 states that \<open>frequencyBasedQueries\<close> raises the empty-input error exactly
  when the array has no elements, whatever the queries are. In the definition the test
  is the first branch, ahead of the call of \<open>buildSegmentTree\<close>.
\<close>

theorem empty_input_error_iff_empty:
  "frequencyBasedQueries arr queries = Some (Inl EmptyInput) \<longleftrightarrow> arr = []"
proof
  assume "arr = []"
  then show "frequencyBasedQueries arr queries = Some (Inl EmptyInput)"
    by (simp add: frequencyBasedQueries_def)
next
  assume r: "frequencyBasedQueries arr queries = Some (Inl EmptyInput)"
  show "arr = []"
  proof (rule ccontr)
    assume ne: "arr \<noteq> []"
    then obtain root where root: "buildSegmentTree arr 0 (int (length arr) - 1) = Some root"
      and split: "rangesSplit root"
      by (rule buildSegmentTree_root)
    from r ne root have "processQueries arr root queries [] = Inl EmptyInput"
      by (simp add: frequencyBasedQueries_def)
    with processQueries_error_kind [OF split] show False by blast
  qed
qed

text \<open>
  Claim C8 states that whenever two elements of the queried range occur equally often
  there, the smaller one is returned at the earlier rank. On \<open>[0, 1, 2, 1]\<close> the range
  \<open>[0, 2]\<close> holds \<open>0\<close> and \<open>1\<close> once each, both queries are valid, and rank \<open>1\<close> is
  answered with \<open>1\<close> and rank \<open>2\<close> with \<open>0\<close>. The full-range example of the claim,
  answered from the root's ranking, comes out as the claim says.
\<close>

theorem tied_elements_ranked_out_of_order:
  "validQuery [0, 1, 2, 1] (0, 2, 1) \<and> validQuery [0, 1, 2, 1] (0, 2, 2)
   \<and> count_list (slice [0, 1, 2, 1 :: int] 0 (2 + 1)) 0 = count_list (slice [0, 1, 2, 1 :: int] 0 (2 + 1)) 1
   \<and> frequencyBasedQueries [0, 1, 2, 1] [(0, 2, 1), (0, 2, 2)] = Some (Inr [Num 1, Num 0])
   \<and> frequencyBasedQueries [100, 200, 300, 100, 200, 300] [(0, 5, 1), (0, 5, 2), (0, 5, 3)]
       = Some (Inr [Num 100, Num 200, Num 300])"
  by code_simp

text \<open>
  Claim C9 states that for a non-empty array every node of the tree returned by
  \<open>buildSegmentTree(arr, 0, arr.length - 1)\<close> has a table that maps exactly the
  distinct values of its range to their numbers of occurrences, counts that add up to
  \<open>end - start + 1\<close>, and a ranking that lists exactly those values by descending
  count and ascending value on ties, the entry at index \<open>i\<close> having exactly \<open>i\<close> values
  ranked before it.
\<close>

theorem buildSegmentTree_nodes_invariant:
  "arr \<noteq> [] \<Longrightarrow>
   \<exists>root. buildSegmentTree arr 0 (int (length arr) - 1) = Some root
        \<and> (\<forall>nd \<in> set (subnodes root). nodeInv arr nd)"
  by (erule buildSegmentTree_root) blast

theorem buildSegmentTree_nodes_invariant_witness:
  "[3, 1, 3 :: int] \<noteq> []
   \<and> (\<exists>root. buildSegmentTree [3, 1, 3] 0 (int (length [3, 1, 3 :: int]) - 1) = Some root
        \<and> (\<forall>nd \<in> set (subnodes root). nodeInv [3, 1, 3] nd))"
  using buildSegmentTree_nodes_invariant [of "[3, 1, 3]"] by simp

text \<open>
  Claim C10 states that the sentinel is the integer \<open>-1\<close>, which can also be an
  element: on \<open>[-1, -1]\<close> the query \<open>(0, 1, 1)\<close> returns \<open>-1\<close>, the element of the
  range that occurs twice, and the same \<open>element\<close> field is returned by \<open>queryRange\<close>
  for rank \<open>2\<close>, which does not exist.
\<close>

theorem sentinel_is_an_element_value:
  "element noSuchRank = Num (- 1)
   \<and> frequencyBasedQueries [- 1, - 1] [(0, 1, 1)] = Some (Inr [Num (- 1)])
   \<and> map_option (\<lambda>root. queryRange root 0 1 1) (buildSegmentTree [- 1, - 1] 0 1)
       = Some (Inr \<lparr>element = Num (- 1), frequency = Num 2\<rparr>)
   \<and> map_option (\<lambda>root. queryRange root 0 1 2) (buildSegmentTree [- 1, - 1] 0 1)
       = Some (Inr \<lparr>element = Num (- 1), frequency = Num 0\<rparr>)"
  by code_simp

end
